theory Spec2Isabelle
  imports Main "HOL-Library.Word"
begin

section \<open>The maze-solving robot of mazeSolverApp.cpp\<close>

text \<open>
  The program keeps the maze in the globals \<open>sMaze\<close>, \<open>sRowCount\<close> and \<open>sColumnCount\<close>,
  finds the openings of the top and bottom rows, and then steps a robot through the maze
  with a stack of visited nodes. Coordinates are \<open>size_t\<close>: 64-bit words that wrap around.
  Reads that C++ leaves undefined (an index outside the grid, \<open>top()\<close> of an empty stack)
  are outcomes of their own in the model. The video buffer and the pacing by \<open>clock()\<close>
  only render and delay; they are left out.
\<close>

subsection \<open>Vector2D\<close>

type_synonym size_t = "64 word"

record Vector2D =
  column :: size_t
  row :: size_t

text \<open>
  The constructor \<open>Vector2D(int column, int row)\<close> takes its arguments as \<open>int\<close>: a
  \<open>size_t\<close> argument is cut to 32 bits, read as signed, and widened again.
\<close>

definition through_int :: "size_t \<Rightarrow> size_t" where
  "through_int x = scast (ucast x :: 32 word)"

definition mkVector2D :: "size_t \<Rightarrow> size_t \<Rightarrow> Vector2D" where
  "mkVector2D c r = \<lparr>column = through_int c, row = through_int r\<rparr>"

text \<open>\<open>operator +\<close> builds its result with the constructor; \<open>operator +=\<close> adds in place.\<close>

definition vplus :: "Vector2D \<Rightarrow> Vector2D \<Rightarrow> Vector2D" where
  "vplus a b = mkVector2D (column a + column b) (row a + row b)"

definition vplus_assign :: "Vector2D \<Rightarrow> Vector2D \<Rightarrow> Vector2D" where
  "vplus_assign a b = \<lparr>column = column a + column b, row = row a + row b\<rparr>"

definition DIRECTION_DOWN :: Vector2D where
  "DIRECTION_DOWN = mkVector2D 0 1"

definition DIRECTION_UP :: Vector2D where
  "DIRECTION_UP = mkVector2D 0 (- 1)"

definition DIRECTION_LEFT :: Vector2D where
  "DIRECTION_LEFT = mkVector2D (- 1) 0"

definition DIRECTION_RIGHT :: Vector2D where
  "DIRECTION_RIGHT = mkVector2D 1 0"

subsection \<open>Bot, NodeInformation, ExitInformation\<close>

datatype Direction = DOWN | UP | LEFT | RIGHT

record Bot =
  position :: Vector2D
  direction :: Direction

fun directionToVector :: "Direction \<Rightarrow> Vector2D" where
  "directionToVector DOWN = DIRECTION_DOWN"
| "directionToVector UP = DIRECTION_UP"
| "directionToVector LEFT = DIRECTION_LEFT"
| "directionToVector RIGHT = DIRECTION_RIGHT"

record NodeInformation =
  nodePosition :: Vector2D
  left :: bool
  right :: bool
  up :: bool
  down :: bool
  wentLeft :: bool
  wentRight :: bool
  wentUp :: bool
  wentDown :: bool

text \<open>The default constructor: position (0, 0), every flag false.\<close>

definition newNode :: NodeInformation where
  "newNode = \<lparr>nodePosition = mkVector2D 0 0,
     left = False, right = False, up = False, down = False,
     wentLeft = False, wentRight = False, wentUp = False, wentDown = False\<rparr>"

record ExitInformation =
  exitPosition :: Vector2D
  exitDirection :: Direction

subsection \<open>The maze globals\<close>

text \<open>
  \<open>sMaze\<close> is the table of wall flags, a list of rows; \<open>sRowCount\<close> and \<open>sColumnCount\<close> are
  the dimensions that \<open>main\<close> counted while reading the file. \<open>findEntryPoints\<close> and the
  tick loop index the table as \<open>sRowCount\<close> rows of \<open>sColumnCount\<close> flags, and are modelled
  over such a table; what \<open>load\<close> allocates for a row is modelled on its own further down.
\<close>

record MazeData =
  sMaze :: "bool list list"
  sRowCount :: size_t
  sColumnCount :: size_t

text \<open>A maze as \<open>main\<close> intends it: \<open>sRowCount\<close> rows of \<open>sColumnCount\<close> flags each.\<close>

definition rectangular :: "MazeData \<Rightarrow> bool" where
  "rectangular m \<longleftrightarrow>
     length (sMaze m) = unat (sRowCount m) \<and>
     list_all (\<lambda>flags. length flags = unat (sColumnCount m)) (sMaze m)"

definition mkMaze :: "bool list list \<Rightarrow> MazeData" where
  "mkMaze rows = \<lparr>sMaze = rows, sRowCount = of_nat (length rows),
     sColumnCount = of_nat (length (hd rows))\<rparr>"

text \<open>
  \<open>sMaze[r][c]\<close> where the loop bounds keep \<open>r < sRowCount\<close> and \<open>c < sColumnCount\<close>
  (the scans of \<open>findEntryPoints\<close>).
\<close>

definition wall :: "MazeData \<Rightarrow> nat \<Rightarrow> nat \<Rightarrow> bool" where
  "wall m r c = sMaze m ! r ! c"

text \<open>
  \<open>sMaze[r][c]\<close> at an index computed from the robot's position: \<open>None\<close> when the index
  lies outside the \<open>sRowCount\<close> by \<open>sColumnCount\<close> table, where the C++ read is undefined.
\<close>

definition rd :: "MazeData \<Rightarrow> size_t \<Rightarrow> size_t \<Rightarrow> bool option" where
  "rd m r c =
     (if r < sRowCount m \<and> c < sColumnCount m
      then Some (sMaze m ! unat r ! unat c) else None)"

subsection \<open>findEntryPoints\<close>

text \<open>
  The column loop of one row. Its body is \<open>if (!sMaze[row][column]) {...; break;}\<close>, and
  the \<open>else\<close> that the source indents under \<open>if (row == 0 || row == sRowCount - 1)\<close>
  belongs, by the grammar of C++, to this inner \<open>if\<close>: the tests of column 0 and of the
  last column run inside the column loop, when the scanned cell is a wall. Each \<open>break\<close>
  leaves the column loop.
\<close>

fun scanColumns :: "MazeData \<Rightarrow> nat \<Rightarrow> nat list \<Rightarrow> ExitInformation option" where
  "scanColumns m r [] = None"
| "scanColumns m r (c # cs) =
     (if \<not> wall m r c then
        Some \<lparr>exitPosition = mkVector2D (of_nat c) (of_nat r),
              exitDirection = (if r = 0 then DOWN else UP)\<rparr>
      else if \<not> wall m r 0 then
        Some \<lparr>exitPosition = mkVector2D 0 (of_nat r), exitDirection = RIGHT\<rparr>
      else if \<not> wall m r (unat (sColumnCount m - 1)) then
        Some \<lparr>exitPosition = mkVector2D (sColumnCount m - 1) (of_nat r),
              exitDirection = LEFT\<rparr>
      else scanColumns m r cs)"

text \<open>The row loop: only row 0 and row \<open>sRowCount - 1\<close> have a body that does anything.\<close>

fun scanRows :: "MazeData \<Rightarrow> nat list \<Rightarrow> ExitInformation list" where
  "scanRows m [] = []"
| "scanRows m (r # rs) =
     (if r = 0 \<or> (of_nat r :: size_t) = sRowCount m - 1 then
        (case scanColumns m r [0..<unat (sColumnCount m)] of
           Some e \<Rightarrow> e # scanRows m rs
         | None \<Rightarrow> scanRows m rs)
      else scanRows m rs)"

definition findEntryPoints :: "MazeData \<Rightarrow> ExitInformation list" where
  "findEntryPoints m = scanRows m [0..<unat (sRowCount m)]"

subsection \<open>The start of main\<close>

text \<open>
  The state of the tick loop: the robot, the candidate exits (\<open>entrances\<close> after the first
  one is erased and the user exits are appended; only their positions are ever read) and
  the stack \<open>visitedLocations\<close>, top first.
\<close>

record state =
  bot :: Bot
  entrances :: "Vector2D list"
  visitedLocations :: "NodeInformation list"

datatype load_error = InsufficientOpenings

text \<open>
  Lines 335 to 352: the test on the number of openings, the choice of the first entrance,
  and the candidate exits. \<open>userExits\<close> are the positions that \<open>load\<close> returned.
\<close>

definition startup :: "MazeData \<Rightarrow> Vector2D list \<Rightarrow> load_error + state" where
  "startup m userExits =
     (let found = findEntryPoints m in
      if length found = 0 \<or> (length found = 1 \<and> length userExits = 0)
      then Inl InsufficientOpenings
      else Inr \<lparr>bot = \<lparr>position = exitPosition (hd found),
                        direction = exitDirection (hd found)\<rparr>,
                entrances = map exitPosition (tl found) @ userExits,
                visitedLocations = []\<rparr>)"

subsection \<open>One tick\<close>

datatype fault = OutOfBoundsRead | EmptyStackTop

datatype outcome =
    Running state
  | Solved "Vector2D list"
  | Stuck
  | Undefined fault

text \<open>\<open>sMaze[r][c] ? false : true\<close>\<close>

definition probe :: "MazeData \<Rightarrow> size_t \<Rightarrow> size_t \<Rightarrow> bool option" where
  "probe m r c = map_option Not (rd m r c)"

text \<open>Lines 401 to 418: the fresh node of this tick and its four guarded reads.\<close>

definition localScan :: "MazeData \<Rightarrow> Vector2D \<Rightarrow> NodeInformation option" where
  "localScan m p =
     (case (if row p \<noteq> 0 then probe m (row p - 1) (column p) else Some False) of
        None \<Rightarrow> None
      | Some u \<Rightarrow>
     (case (if row p \<noteq> sRowCount m - 1 then probe m (row p + 1) (column p) else Some False) of
        None \<Rightarrow> None
      | Some d \<Rightarrow>
     (case (if column p \<noteq> 0 then probe m (row p) (column p - 1) else Some False) of
        None \<Rightarrow> None
      | Some l \<Rightarrow>
     (case (if column p \<noteq> sColumnCount m - 1 then probe m (row p) (column p + 1)
            else Some False) of
        None \<Rightarrow> None
      | Some r \<Rightarrow>
          Some (newNode\<lparr>nodePosition := p, up := u, down := d, left := l, right := r\<rparr>)))))"

text \<open>
  Lines 455 to 501: the heading is blocked. The node is marked along the heading's axis
  and the two perpendicular directions are tried in the order of the \<open>if\<close> chain.
\<close>

definition branchUpDown :: "NodeInformation \<Rightarrow> NodeInformation \<times> Direction option" where
  "branchUpDown n =
     (let n1 = n\<lparr>wentDown := True, wentUp := True\<rparr> in
      if left n1 \<and> \<not> wentLeft n1 then (n1\<lparr>wentLeft := True\<rparr>, Some LEFT)
      else if right n1 \<and> \<not> wentRight n1 then (n1\<lparr>wentRight := True\<rparr>, Some RIGHT)
      else (n1, None))"

definition branchLeftRight :: "NodeInformation \<Rightarrow> NodeInformation \<times> Direction option" where
  "branchLeftRight n =
     (let n1 = n\<lparr>wentLeft := True, wentRight := True\<rparr> in
      if up n1 \<and> \<not> wentUp n1 then (n1, Some UP)
      else if down n1 \<and> \<not> wentDown n1 then (n1, Some DOWN)
      else (n1, None))"

fun branch :: "Direction \<Rightarrow> NodeInformation \<Rightarrow> NodeInformation \<times> Direction option" where
  "branch DOWN n = branchUpDown n"
| "branch UP n = branchUpDown n"
| "branch LEFT n = branchLeftRight n"
| "branch RIGHT n = branchLeftRight n"

text \<open>
  Lines 523 to 546: \<open>currentStep\<close> is the node just popped, \<open>nextStep\<close> the new top.
\<close>

definition retry :: "NodeInformation \<Rightarrow> NodeInformation \<Rightarrow> (NodeInformation \<times> Direction) option" where
  "retry currentStep nextStep =
     (if down currentStep \<and> \<not> wentDown currentStep
         \<and> nodePosition nextStep \<noteq> vplus (nodePosition currentStep) DIRECTION_DOWN
      then Some (currentStep\<lparr>wentDown := True\<rparr>, DOWN)
      else if up currentStep \<and> \<not> wentUp currentStep
         \<and> nodePosition nextStep \<noteq> vplus (nodePosition currentStep) DIRECTION_UP
      then Some (currentStep\<lparr>wentUp := True\<rparr>, UP)
      else if left currentStep \<and> \<not> wentLeft currentStep
         \<and> nodePosition nextStep \<noteq> vplus (nodePosition currentStep) DIRECTION_LEFT
      then Some (currentStep\<lparr>wentLeft := True\<rparr>, LEFT)
      else if right currentStep \<and> \<not> wentRight currentStep
         \<and> nodePosition nextStep \<noteq> vplus (nodePosition currentStep) DIRECTION_RIGHT
      then Some (currentStep\<lparr>wentRight := True\<rparr>, RIGHT)
      else None)"

text \<open>
  Lines 508 to 562, the loop \<open>while (!visitedLocations.empty() && !foundBranch)\<close>. The
  result is \<open>foundBranch\<close>, the robot and the stack. After the pop the code takes
  \<open>visitedLocations.top()\<close> without a test: on a stack that held one node this is the top
  of an empty stack.
\<close>

fun backtrack :: "Bot \<Rightarrow> NodeInformation list \<Rightarrow> fault + (bool \<times> Bot \<times> NodeInformation list)" where
  "backtrack b [] = Inr (False, b, [])"
| "backtrack b [currentStep] = Inl EmptyStackTop"
| "backtrack b (currentStep # nextStep # rest) =
     (case retry currentStep nextStep of
        Some (currentStep', d) \<Rightarrow>
          Inr (True, \<lparr>position = nodePosition currentStep, direction = d\<rparr>,
               currentStep' # nextStep # rest)
      | None \<Rightarrow> backtrack (b\<lparr>position := nodePosition currentStep\<rparr>) (nextStep # rest))"

text \<open>
  One pass through the body of that loop, lines 517 to 560: \<open>foundBranch\<close>, the robot and
  the stack as they are when the maze is redrawn at line 558. A pass that finds no
  direction leaves the robot on the cell of the node it popped. The loop enters the body
  on a stack that is not empty; with fewer than two nodes the \<open>top()\<close> of line 520 is taken
  of an empty stack.
\<close>

fun backtrackStep :: "Bot \<Rightarrow> NodeInformation list \<Rightarrow> fault + (bool \<times> Bot \<times> NodeInformation list)" where
  "backtrackStep b (currentStep # nextStep # rest) =
     (case retry currentStep nextStep of
        Some (currentStep', d) \<Rightarrow>
          Inr (True, \<lparr>position = nodePosition currentStep, direction = d\<rparr>,
               currentStep' # nextStep # rest)
      | None \<Rightarrow> Inr (False, b\<lparr>position := nodePosition currentStep\<rparr>, nextStep # rest))"
| "backtrackStep b _ = Inl EmptyStackTop"

text \<open>The loop cut off after a number of passes.\<close>

fun passes :: "nat \<Rightarrow> Bot \<Rightarrow> NodeInformation list \<Rightarrow> fault + (bool \<times> Bot \<times> NodeInformation list)" where
  "passes 0 b st = Inr (False, b, st)"
| "passes (Suc j) b st =
     (if st = [] then Inr (False, b, st)
      else
        (case backtrackStep b st of
           Inl f \<Rightarrow> Inl f
         | Inr (foundBranch, b', st') \<Rightarrow>
             if foundBranch then Inr (True, b', st') else passes j b' st'))"

text \<open>Lines 585 to 599.\<close>

fun markWent :: "Direction \<Rightarrow> NodeInformation \<Rightarrow> NodeInformation" where
  "markWent DOWN n = n\<lparr>wentDown := True\<rparr>"
| "markWent UP n = n\<lparr>wentUp := True\<rparr>"
| "markWent LEFT n = n\<lparr>wentLeft := True\<rparr>"
| "markWent RIGHT n = n\<lparr>wentRight := True\<rparr>"

text \<open>Lines 576 to 602: the robot moves along its heading and the node is pushed.\<close>

definition advance :: "state \<Rightarrow> Direction \<Rightarrow> NodeInformation \<Rightarrow> state" where
  "advance s d currentNode =
     s\<lparr>bot := \<lparr>position = vplus_assign (position (bot s)) (directionToVector d),
               direction = d\<rparr>,
       visitedLocations := markWent d currentNode # visitedLocations s\<rparr>"

text \<open>
  The body of the \<open>while (true)\<close> loop, lines 376 to 607. On \<open>Solved\<close> the stack is
  printed from the top down and emptied: the outcome carries the positions in that order.
\<close>

definition tick :: "MazeData \<Rightarrow> state \<Rightarrow> outcome" where
  "tick m s =
     (if list_ex (\<lambda>e. e = position (bot s)) (entrances s)
      then Solved (map nodePosition (visitedLocations s))
      else
        (case localScan m (position (bot s)) of
           None \<Rightarrow> Undefined OutOfBoundsRead
         | Some currentNode \<Rightarrow>
            (let lookAhead = vplus (position (bot s)) (directionToVector (direction (bot s))) in
             case rd m (row lookAhead) (column lookAhead) of
               None \<Rightarrow> Undefined OutOfBoundsRead
             | Some False \<Rightarrow> Running (advance s (direction (bot s)) currentNode)
             | Some True \<Rightarrow>
                 (case branch (direction (bot s)) currentNode of
                    (currentNode', Some d) \<Rightarrow> Running (advance s d currentNode')
                  | (currentNode', None) \<Rightarrow>
                      (case backtrack (bot s) (visitedLocations s) of
                         Inl f \<Rightarrow> Undefined f
                       | Inr (foundBranch, b, stack) \<Rightarrow>
                           if foundBranch
                           then Running (s\<lparr>bot := b, visitedLocations := stack\<rparr>)
                           else Stuck)))))"

text \<open>
  The tick passes the goal check, builds \<open>currentNode\<close> and finds a wall at the
  look-ahead cell (line 450).
\<close>

definition blockedAt :: "MazeData \<Rightarrow> state \<Rightarrow> NodeInformation \<Rightarrow> bool" where
  "blockedAt m s currentNode \<longleftrightarrow>
     \<not> list_ex (\<lambda>e. e = position (bot s)) (entrances s) \<and>
     localScan m (position (bot s)) = Some currentNode \<and>
     (let lookAhead = vplus (position (bot s)) (directionToVector (direction (bot s)))
      in rd m (row lookAhead) (column lookAhead) = Some True)"

text \<open>The tick reaches line 503 with \<open>foundBranch\<close> false: the backtracking loop is entered.\<close>

definition entersBacktracking :: "MazeData \<Rightarrow> state \<Rightarrow> bool" where
  "entersBacktracking m s =
     (case localScan m (position (bot s)) of
        None \<Rightarrow> False
      | Some currentNode \<Rightarrow>
          blockedAt m s currentNode \<and> snd (branch (direction (bot s)) currentNode) = None)"

text \<open>The loop itself, cut off after a number of ticks.\<close>

fun run :: "nat \<Rightarrow> MazeData \<Rightarrow> state \<Rightarrow> outcome" where
  "run 0 m s = Running s"
| "run (Suc n) m s =
     (case tick m s of
        Running s' \<Rightarrow> run n m s'
      | out \<Rightarrow> out)"

text \<open>The program from the openings test on: the start of \<open>main\<close>, then \<open>n\<close> ticks.\<close>

definition solve :: "nat \<Rightarrow> MazeData \<Rightarrow> Vector2D list \<Rightarrow> load_error + outcome" where
  "solve n m userExits =
     (case startup m userExits of
        Inl err \<Rightarrow> Inl err
      | Inr s \<Rightarrow> Inr (run n m s))"

subsection \<open>load\<close>

text \<open>
  Lines 171 to 179: \<open>new bool(false)\<close> allocates, for each row, storage for one flag.
\<close>

definition allocate :: "nat \<Rightarrow> bool list list" where
  "allocate rowCount = replicate rowCount [False]"

text \<open>\<open>sMaze[r][c] = v\<close>: \<open>None\<close> when the cell is not inside the storage of row \<open>r\<close>.\<close>

definition store :: "bool list list \<Rightarrow> nat \<Rightarrow> nat \<Rightarrow> bool \<Rightarrow> bool list list option" where
  "store t r c v =
     (if r < length t \<and> c < length (t ! r) then Some (t[r := (t ! r)[c := v]]) else None)"

text \<open>
  Lines 182 to 201, over the characters of \<open>data\<close> paired with their index. An \<open>O\<close> is an
  open cell and a user exit; an \<open>X\<close> is a wall; anything else is open.
\<close>

fun loadLoop :: "nat \<Rightarrow> (nat \<times> char) list \<Rightarrow> bool list list \<Rightarrow> Vector2D list
    \<Rightarrow> (bool list list \<times> Vector2D list) option" where
  "loadLoop columnCount [] t results = Some (t, results)"
| "loadLoop columnCount ((iteration, ch) # rest) t results =
     (let r = iteration div columnCount; c = iteration mod columnCount in
      if ch = CHR ''O'' then
        (case store t r c False of
           None \<Rightarrow> None
         | Some t' \<Rightarrow>
             loadLoop columnCount rest t' (results @ [mkVector2D (of_nat c) (of_nat r)]))
      else
        (case store t r c (ch = CHR ''X'') of
           None \<Rightarrow> None
         | Some t' \<Rightarrow> loadLoop columnCount rest t' results))"

text \<open>
  \<open>load\<close> with the dimensions that \<open>main\<close> has counted: the maze and the user exits, or
  \<open>None\<close> when a write leaves the storage of its row.
\<close>

definition load :: "size_t \<Rightarrow> size_t \<Rightarrow> string \<Rightarrow> (MazeData \<times> Vector2D list) option" where
  "load rowCount columnCount data =
     (case loadLoop (unat columnCount) (enumerate 0 data) (allocate (unat rowCount)) [] of
        None \<Rightarrow> None
      | Some (t, results) \<Rightarrow>
          Some (\<lparr>sMaze = t, sRowCount = rowCount, sColumnCount = columnCount\<rparr>, results))"

subsection \<open>The tie-break orders as ordered tables\<close>

fun isOpen :: "NodeInformation \<Rightarrow> Direction \<Rightarrow> bool" where
  "isOpen n DOWN = down n"
| "isOpen n UP = up n"
| "isOpen n LEFT = left n"
| "isOpen n RIGHT = right n"






subsection \<open>Paths\<close>

text \<open>A cell inside the grid that is not a wall.\<close>

definition openCell :: "MazeData \<Rightarrow> Vector2D \<Rightarrow> bool" where
  "openCell m p \<longleftrightarrow> rd m (row p) (column p) = Some False"

text \<open>Two cells that differ by one unit in one axis.\<close>

definition adjacent :: "Vector2D \<Rightarrow> Vector2D \<Rightarrow> bool" where
  "adjacent p q \<longleftrightarrow>
     (column p = column q \<and> (row q = row p + 1 \<or> row p = row q + 1)) \<or>
     (row p = row q \<and> (column q = column p + 1 \<or> column p = column q + 1))"

fun unitSteps :: "Vector2D list \<Rightarrow> bool" where
  "unitSteps (p # q # rest) = (adjacent p q \<and> unitSteps (q # rest))"
| "unitSteps _ = True"

fun linked :: "Vector2D list \<Rightarrow> bool" where
  "linked (p # q # rest) = ((p = q \<or> adjacent p q) \<and> linked (q # rest))"
| "linked _ = True"

subsection \<open>Example mazes\<close>

abbreviation (input) X :: bool where "X \<equiv> True"

abbreviation (input) F :: bool where "F \<equiv> False"

definition cell :: "size_t \<Rightarrow> size_t \<Rightarrow> Vector2D" where
  "cell c r = \<lparr>column = c, row = r\<rparr>"

text \<open>A vertical corridor from the top row to the bottom row.\<close>

definition corridor :: MazeData where
  "corridor = mkMaze
     [[X, F, X],
      [X, F, X],
      [X, F, X]]"

text \<open>A vertical corridor down the last column; the entrance (2, 0) is found heading left.\<close>

definition edgeCorridor :: MazeData where
  "edgeCorridor = mkMaze
     [[X, X, F],
      [X, X, F],
      [X, X, F]]"

text \<open>Openings in column 0 and in the last column of interior rows only.\<close>

definition sideDoors :: MazeData where
  "sideDoors = mkMaze
     [[X, X, X, X],
      [F, F, X, X],
      [X, X, F, F],
      [X, X, X, X]]"

text \<open>Two user exits inside, no opening on the boundary.\<close>

definition innerExits :: MazeData where
  "innerExits = mkMaze
     [[X, X, X, X],
      [X, F, F, X],
      [X, X, X, X]]"

text \<open>
  The entrance is (1, 0), the exit (3, 2); at the junction (3, 1) the top row is open
  above and the exit lies below.
\<close>

definition junction :: MazeData where
  "junction = mkMaze
     [[X, F, X, F, X],
      [X, F, F, F, X],
      [X, X, X, F, X]]"

text \<open>A ring of open cells between the entrance (2, 0) and the exit (2, 4).\<close>

definition ring :: MazeData where
  "ring = mkMaze
     [[X, X, F, X, X],
      [X, F, F, F, X],
      [X, F, X, F, X],
      [X, F, F, F, X],
      [X, X, F, X, X]]"

text \<open>A dead end below the junction (1, 1); the way to the exit (3, 3) branches off there.\<close>

definition deadEndFirst :: MazeData where
  "deadEndFirst = mkMaze
     [[X, F, X, X, X],
      [X, F, F, F, X],
      [X, F, X, F, X],
      [X, X, X, F, X]]"

text \<open>The same with a dead end two cells deep; the exit is (3, 4).\<close>

definition deepDeadEnd :: MazeData where
  "deepDeadEnd = mkMaze
     [[X, F, X, X, X],
      [X, F, F, F, X],
      [X, F, X, F, X],
      [X, F, X, F, X],
      [X, X, X, F, X]]"

text \<open>The cell below the entrance (1, 0) is a dead end; the exit (4, 2) cannot be reached.\<close>

definition blindAlley :: MazeData where
  "blindAlley = mkMaze
     [[X, F, F, X, X],
      [X, F, X, X, X],
      [X, X, X, X, F]]"

subsection \<open>Predicates used in the statements\<close>

text \<open>The program has not stopped: neither rejected the maze nor left the tick loop.\<close>

definition stillRunning :: "load_error + outcome \<Rightarrow> bool" where
  "stillRunning r = (case r of Inr (Running s) \<Rightarrow> True | _ \<Rightarrow> False)"

text \<open>
  Dimensions that survive the \<open>int\<close> parameters of the \<open>Vector2D\<close> constructor. The line
  buffer of \<open>main\<close> holds 255 characters, so the column count always does.
\<close>

definition wellSized :: "MazeData \<Rightarrow> bool" where
  "wellSized m \<longleftrightarrow> sRowCount m < 2 ^ 31 \<and> sColumnCount m < 2 ^ 31"

text \<open>
  The invariant of the tick loop behind the path property: the robot and every node of
  the stack stand on open cells, and from the robot down the stack each position equals
  the next or is one step away from it.
\<close>

definition pathInv :: "MazeData \<Rightarrow> state \<Rightarrow> bool" where
  "pathInv m s \<longleftrightarrow>
     openCell m (position (bot s)) \<and>
     list_all (openCell m) (map nodePosition (visitedLocations s)) \<and>
     linked (position (bot s) # map nodePosition (visitedLocations s))"

text \<open>The eight robot states of one round through \<open>ring\<close>.\<close>

definition lap :: "Bot list" where
  "lap =
     [\<lparr>position = cell 1 1, direction = LEFT\<rparr>,
      \<lparr>position = cell 1 2, direction = DOWN\<rparr>,
      \<lparr>position = cell 1 3, direction = DOWN\<rparr>,
      \<lparr>position = cell 2 3, direction = RIGHT\<rparr>,
      \<lparr>position = cell 3 3, direction = RIGHT\<rparr>,
      \<lparr>position = cell 3 2, direction = UP\<rparr>,
      \<lparr>position = cell 3 1, direction = UP\<rparr>,
      \<lparr>position = cell 2 1, direction = LEFT\<rparr>]"

definition onLap :: "state \<Rightarrow> bool" where
  "onLap s \<longleftrightarrow> entrances s = [cell 2 4] \<and> bot s \<in> set lap"

definition staysOnLap :: "Bot \<Rightarrow> bool" where
  "staysOnLap b =
     (case tick ring \<lparr>bot = b, entrances = [cell 2 4], visitedLocations = []\<rparr> of
        Running s' \<Rightarrow> onLap s'
      | _ \<Rightarrow> False)"

definition reachesLap :: "nat \<Rightarrow> bool" where
  "reachesLap n =
     (case solve n ring [] of
        Inr (Running s) \<Rightarrow> onLap s
      | _ \<Rightarrow> False)"

text \<open>The cell \<open>j\<close> steps from \<open>p\<close> in direction \<open>d\<close>.\<close>

fun ahead :: "nat \<Rightarrow> Vector2D \<Rightarrow> Direction \<Rightarrow> Vector2D" where
  "ahead 0 p d = p"
| "ahead (Suc j) p d = vplus_assign (ahead j p d) (directionToVector d)"

text \<open>
  The robot heads in direction \<open>d\<close>, or its heading is blocked and the branch attempt of
  its next tick takes \<open>d\<close>.
\<close>

definition turnsInto :: "MazeData \<Rightarrow> state \<Rightarrow> Direction \<Rightarrow> bool" where
  "turnsInto m s d \<longleftrightarrow>
     direction (bot s) = d \<or>
     (case localScan m (position (bot s)) of
        None \<Rightarrow> False
      | Some currentNode \<Rightarrow>
          blockedAt m s currentNode \<and> snd (branch (direction (bot s)) currentNode) = Some d)"

text \<open>
  A straight corridor of \<open>L\<close> cells from the robot in direction \<open>d\<close>: the cells are open,
  the last of them is a candidate exit and the others are not, and the robot heads or
  turns into it.
\<close>

definition corridorFrom :: "MazeData \<Rightarrow> state \<Rightarrow> Direction \<Rightarrow> nat \<Rightarrow> bool" where
  "corridorFrom m s d L \<longleftrightarrow>
     0 < L \<and> turnsInto m s d \<and>
     list_all (\<lambda>j. openCell m (ahead j (position (bot s)) d)) [0..<L] \<and>
     list_all (\<lambda>j. \<not> list_ex (\<lambda>e. e = ahead j (position (bot s)) d) (entrances s)) [0..<L - 1] \<and>
     list_ex (\<lambda>e. e = ahead (L - 1) (position (bot s)) d) (entrances s)"

text \<open>The states in which \<open>main\<close> starts the tick loop in \<open>corridor\<close> and \<open>edgeCorridor\<close>.\<close>

definition corridorStart :: state where
  "corridorStart =
     \<lparr>bot = \<lparr>position = cell 1 0, direction = DOWN\<rparr>,
      entrances = [cell 1 2], visitedLocations = []\<rparr>"

definition edgeStart :: state where
  "edgeStart =
     \<lparr>bot = \<lparr>position = cell 2 0, direction = LEFT\<rparr>,
      entrances = [cell 2 2], visitedLocations = []\<rparr>"

text \<open>
  \<open>deepDeadEnd\<close> after three ticks, the robot in the dead end (1, 3), and after the fourth
  tick, which backtracks; \<open>deepEnd\<close> is the node that the fourth tick builds.
\<close>

definition deepEntrance :: NodeInformation where
  "deepEntrance = newNode\<lparr>nodePosition := cell 1 0, down := True, wentDown := True\<rparr>"

definition deepJunction :: NodeInformation where
  "deepJunction =
     newNode\<lparr>nodePosition := cell 1 1, right := True, up := True, down := True, wentDown := True\<rparr>"

definition deepAlley :: NodeInformation where
  "deepAlley = newNode\<lparr>nodePosition := cell 1 2, up := True, down := True, wentDown := True\<rparr>"


definition deepBlocked :: state where
  "deepBlocked =
     \<lparr>bot = \<lparr>position = cell 1 3, direction = DOWN\<rparr>, entrances = [cell 3 4],
      visitedLocations = [deepAlley, deepJunction, deepEntrance]\<rparr>"

definition deepResumed :: state where
  "deepResumed =
     \<lparr>bot = \<lparr>position = cell 1 1, direction = RIGHT\<rparr>, entrances = [cell 3 4],
      visitedLocations = [deepJunction\<lparr>wentRight := True\<rparr>, deepEntrance]\<rparr>"

section \<open>Lemmas\<close>

subsection \<open>The conversion through int\<close>

lemma through_int_small:
  assumes "x < 2 ^ 31"
  shows "through_int x = x"
proof -
  have tb: "take_bit 31 x = x"
    using less_mask_eq [OF assms] by (simp add: take_bit_eq_mask)
  have hi: "n < 31" if "bit x n" for n
  proof -
    from that have "bit (take_bit 31 x) n" by (simp add: tb)
    then show ?thesis by (simp add: bit_take_bit_iff)
  qed
  show ?thesis
    unfolding through_int_def
    by (rule bit_word_eqI) (auto simp add: bit_word_scast_iff bit_word_ucast_iff dest: hi)
qed

lemma through_int_m1: "through_int (- 1) = - 1"
  by code_simp

lemma through_int_0: "through_int 0 = 0"
  by code_simp

lemma through_int_1: "through_int 1 = 1"
  by code_simp

lemma through_int_succ:
  assumes "x < 2 ^ 31 - 1"
  shows "through_int (x + 1) = x + 1"
proof -
  have "x + 1 < 2 ^ 31" using assms by unat_arith
  then show ?thesis by (rule through_int_small)
qed

lemma through_int_pred:
  assumes "x < 2 ^ 31"
  shows "through_int (x - 1) = x - 1"
proof (cases "x = 0")
  case True
  then show ?thesis by (simp add: through_int_m1)
next
  case False
  then have "x - 1 < 2 ^ 31" using assms by unat_arith
  then show ?thesis by (rule through_int_small)
qed

subsection \<open>The unit displacements\<close>

text \<open>
  On a cell of a well-sized maze \<open>operator +\<close> and \<open>operator +=\<close> agree for the four
  displacements, also where the sum wraps round below zero.
\<close>

lemma DIRECTION_simps:
  "DIRECTION_DOWN = \<lparr>column = 0, row = 1\<rparr>"
  "DIRECTION_UP = \<lparr>column = 0, row = - 1\<rparr>"
  "DIRECTION_LEFT = \<lparr>column = - 1, row = 0\<rparr>"
  "DIRECTION_RIGHT = \<lparr>column = 1, row = 0\<rparr>"
  by (simp_all add: DIRECTION_DOWN_def DIRECTION_UP_def DIRECTION_LEFT_def DIRECTION_RIGHT_def
      mkVector2D_def through_int_m1 through_int_0 through_int_1)

lemma vplus_direction:
  assumes "row p < 2 ^ 31 - 1" and "column p < 2 ^ 31 - 1"
  shows "vplus p (directionToVector d) = vplus_assign p (directionToVector d)"
proof -
  have r: "row p < 2 ^ 31" and c: "column p < 2 ^ 31"
    using assms by unat_arith+
  show ?thesis
    by (cases d)
      (simp_all add: DIRECTION_simps vplus_def vplus_assign_def mkVector2D_def
        through_int_small [OF r] through_int_small [OF c]
        through_int_succ [OF assms(1)] through_int_succ [OF assms(2)]
        through_int_pred [OF r] through_int_pred [OF c])
qed

lemma adjacent_step: "adjacent p (vplus_assign p (directionToVector d))"
  by (cases d) (simp_all add: DIRECTION_simps adjacent_def vplus_assign_def)

lemma openCell_bounds:
  "openCell m p \<Longrightarrow> row p < sRowCount m \<and> column p < sColumnCount m"
  by (simp add: openCell_def rd_def split: if_splits)

lemma openCell_small:
  assumes "wellSized m" and "openCell m p"
  shows "row p < 2 ^ 31 - 1" and "column p < 2 ^ 31 - 1"
  using assms openCell_bounds [OF assms(2)] unfolding wellSized_def by unat_arith+


subsection \<open>The parts of a tick\<close>

lemma localScan_Some:
  assumes "localScan m p = Some n"
  shows "nodePosition n = p"
    and "up n \<Longrightarrow> rd m (row p - 1) (column p) = Some False"
    and "down n \<Longrightarrow> rd m (row p + 1) (column p) = Some False"
    and "left n \<Longrightarrow> rd m (row p) (column p - 1) = Some False"
    and "right n \<Longrightarrow> rd m (row p) (column p + 1) = Some False"
  using assms
  by (auto simp add: localScan_def probe_def newNode_def split: option.splits if_splits)

lemma branch_Some:
  assumes "branch heading n = (n', Some d)"
  shows "isOpen n d" and "nodePosition n' = nodePosition n"
  using assms
  by (cases heading; auto simp add: branchUpDown_def branchLeftRight_def Let_def split: if_splits)+

lemma markWent_position: "nodePosition (markWent d n) = nodePosition n"
  by (cases d) simp_all

lemma open_neighbour:
  assumes "localScan m p = Some n" and "isOpen n d"
  shows "openCell m (vplus_assign p (directionToVector d))"
  using assms localScan_Some [OF assms(1)]
  by (cases d) (simp_all add: DIRECTION_simps vplus_assign_def openCell_def)

lemma retry_position:
  "retry currentStep nextStep = Some (currentStep', d) \<Longrightarrow>
     nodePosition currentStep' = nodePosition currentStep"
  by (auto simp add: retry_def split: if_splits)

lemma backtrack_found:
  "backtrack b st = Inr (True, b', st') \<Longrightarrow>
     \<exists>k top. k < length st \<and> st' = top # drop (Suc k) st
        \<and> nodePosition top = nodePosition (st ! k) \<and> position b' = nodePosition top"
proof (induction b st rule: backtrack.induct)
  case (1 b)
  then show ?case by simp
next
  case (2 b currentStep)
  then show ?case by simp
next
  case (3 b currentStep nextStep rest)
  show ?case
  proof (cases "retry currentStep nextStep")
    case None
    with "3.prems" have "backtrack (b\<lparr>position := nodePosition currentStep\<rparr>) (nextStep # rest)
        = Inr (True, b', st')"
      by simp
    from "3.IH" [OF None this] obtain k top where
      "k < length (nextStep # rest)" "st' = top # drop (Suc k) (nextStep # rest)"
      "nodePosition top = nodePosition ((nextStep # rest) ! k)" "position b' = nodePosition top"
      by blast
    then have "Suc k < length (currentStep # nextStep # rest)
        \<and> st' = top # drop (Suc (Suc k)) (currentStep # nextStep # rest)
        \<and> nodePosition top = nodePosition ((currentStep # nextStep # rest) ! Suc k)
        \<and> position b' = nodePosition top"
      by simp
    then show ?thesis by blast
  next
    case (Some a)
    obtain top d where a: "a = (top, d)" by (cases a)
    with Some "3.prems" have "st' = top # drop (Suc 0) (currentStep # nextStep # rest)"
      and "position b' = nodePosition currentStep"
      by auto
    moreover have "nodePosition top = nodePosition currentStep"
      using Some a retry_position by simp
    ultimately have "0 < length (currentStep # nextStep # rest)
        \<and> st' = top # drop (Suc 0) (currentStep # nextStep # rest)
        \<and> nodePosition top = nodePosition ((currentStep # nextStep # rest) ! 0)
        \<and> position b' = nodePosition top"
      by simp
    then show ?thesis by blast
  qed
qed

subsection \<open>The backtracking loop\<close>

lemma backtrack_pass:
  "backtrack b (currentStep # st) =
     (case backtrackStep b (currentStep # st) of
        Inl f \<Rightarrow> Inl f
      | Inr (foundBranch, b', st') \<Rightarrow>
          if foundBranch then Inr (True, b', st') else backtrack b' st')"
  by (cases st) (auto split: option.splits)

lemma backtrack_passes: "backtrack b st = passes (length st) b st"
proof (induction b st rule: backtrack.induct)
  case (1 b)
  then show ?case by simp
next
  case (2 b currentStep)
  then show ?case by simp
next
  case (3 b currentStep nextStep rest)
  then show ?case by (auto split: option.splits)
qed



lemma backtrack_found_first:
  "backtrack b st = Inr (True, b', st') \<Longrightarrow>
     \<exists>k top d. Suc k < length st
        \<and> (\<forall>j<k. retry (st ! j) (st ! Suc j) = None)
        \<and> retry (st ! k) (st ! Suc k) = Some (top, d)
        \<and> st' = top # drop (Suc k) st
        \<and> b' = \<lparr>position = nodePosition (st ! k), direction = d\<rparr>"
proof (induction b st rule: backtrack.induct)
  case (1 b)
  then show ?case by simp
next
  case (2 b currentStep)
  then show ?case by simp
next
  case (3 b currentStep nextStep rest)
  let ?st = "currentStep # nextStep # rest"
  show ?case
  proof (cases "retry currentStep nextStep")
    case None
    with "3.prems" have "backtrack (b\<lparr>position := nodePosition currentStep\<rparr>) (nextStep # rest)
        = Inr (True, b', st')"
      by simp
    from "3.IH" [OF None this] obtain k top d where
      k: "Suc k < length (nextStep # rest)"
      and none: "\<forall>j<k. retry ((nextStep # rest) ! j) ((nextStep # rest) ! Suc j) = None"
      and some: "retry ((nextStep # rest) ! k) ((nextStep # rest) ! Suc k) = Some (top, d)"
      and st': "st' = top # drop (Suc k) (nextStep # rest)"
      and b': "b' = \<lparr>position = nodePosition ((nextStep # rest) ! k), direction = d\<rparr>"
      by blast
    have "\<forall>j<Suc k. retry (?st ! j) (?st ! Suc j) = None"
    proof (intro allI impI)
      fix j assume "j < Suc k"
      then show "retry (?st ! j) (?st ! Suc j) = None"
        using None none by (cases j) simp_all
    qed
    with k some st' b' have "Suc (Suc k) < length ?st
        \<and> (\<forall>j<Suc k. retry (?st ! j) (?st ! Suc j) = None)
        \<and> retry (?st ! Suc k) (?st ! Suc (Suc k)) = Some (top, d)
        \<and> st' = top # drop (Suc (Suc k)) ?st
        \<and> b' = \<lparr>position = nodePosition (?st ! Suc k), direction = d\<rparr>"
      by simp
    then show ?thesis by blast
  next
    case (Some a)
    obtain top d where a: "a = (top, d)" by (cases a)
    with Some "3.prems" have "Suc 0 < length ?st
        \<and> (\<forall>j<0. retry (?st ! j) (?st ! Suc j) = None)
        \<and> retry (?st ! 0) (?st ! Suc 0) = Some (top, d)
        \<and> st' = top # drop (Suc 0) ?st
        \<and> b' = \<lparr>position = nodePosition (?st ! 0), direction = d\<rparr>"
      by auto
    then show ?thesis by blast
  qed
qed

lemma passes_none:
  "Suc j < length st \<Longrightarrow> \<forall>i\<le>j. retry (st ! i) (st ! Suc i) = None \<Longrightarrow>
     passes (Suc j) b st = Inr (False, b\<lparr>position := nodePosition (st ! j)\<rparr>, drop (Suc j) st)"
proof (induction j arbitrary: b st)
  case 0
  then obtain c n rest where st: "st = c # n # rest"
    by (cases st; cases "tl st") auto
  with 0 show ?case by simp
next
  case (Suc j)
  then obtain c n rest where st: "st = c # n # rest"
    by (cases st; cases "tl st") auto
  from Suc.prems(2) st have first: "retry c n = None"
    by (metis le0 nth_Cons_0 nth_Cons_Suc)
  from Suc.prems st have len: "Suc j < length (n # rest)" by simp
  have "\<forall>i\<le>j. retry ((n # rest) ! i) ((n # rest) ! Suc i) = None"
  proof (intro allI impI)
    fix i assume "i \<le> j"
    then have "Suc i \<le> Suc j" by simp
    with Suc.prems(2) have "retry (st ! Suc i) (st ! Suc (Suc i)) = None" by blast
    then show "retry ((n # rest) ! i) ((n # rest) ! Suc i) = None" by (simp add: st)
  qed
  from Suc.IH [OF len this, of "b\<lparr>position := nodePosition c\<rparr>"] first show ?case
    by (simp add: st)
qed

lemma passes_found:
  "Suc k < length st \<Longrightarrow> \<forall>j<k. retry (st ! j) (st ! Suc j) = None \<Longrightarrow>
   retry (st ! k) (st ! Suc k) = Some (pushed, d) \<Longrightarrow>
     passes (Suc k) b st =
       Inr (True, \<lparr>position = nodePosition (st ! k), direction = d\<rparr>, pushed # drop (Suc k) st)"
proof (induction k arbitrary: b st)
  case 0
  then obtain c n rest where st: "st = c # n # rest"
    by (cases st; cases "tl st") auto
  with 0 show ?case by simp
next
  case (Suc k)
  then obtain c n rest where st: "st = c # n # rest"
    by (cases st; cases "tl st") auto
  from Suc.prems(2) st have first: "retry c n = None"
    by (metis zero_less_Suc nth_Cons_0 nth_Cons_Suc)
  from Suc.prems(1) st have len: "Suc k < length (n # rest)" by simp
  have none: "\<forall>j<k. retry ((n # rest) ! j) ((n # rest) ! Suc j) = None"
  proof (intro allI impI)
    fix j assume "j < k"
    then have "Suc j < Suc k" by simp
    with Suc.prems(2) have "retry (st ! Suc j) (st ! Suc (Suc j)) = None" by blast
    then show "retry ((n # rest) ! j) ((n # rest) ! Suc j) = None" by (simp add: st)
  qed
  have some: "retry ((n # rest) ! k) ((n # rest) ! Suc k) = Some (pushed, d)"
    using Suc.prems(3) by (simp add: st)
  from Suc.IH [OF len none some, of "b\<lparr>position := nodePosition c\<rparr>"] first show ?case
    by (simp add: st)
qed

subsection \<open>The invariant of the tick loop\<close>

lemma linked_tail: "linked (p # ps) \<Longrightarrow> linked ps"
  by (cases ps) simp_all

lemma linked_drop: "linked ps \<Longrightarrow> linked (drop k ps)"
proof (induction k arbitrary: ps)
  case 0
  then show ?case by simp
next
  case (Suc k)
  show ?case
  proof (cases ps)
    case Nil
    then show ?thesis by simp
  next
    case (Cons q qs)
    with Suc.prems have "linked qs" by (simp add: linked_tail)
    with Suc.IH Cons show ?thesis by simp
  qed
qed

lemma list_all_drop: "list_all P xs \<Longrightarrow> list_all P (drop k xs)"
  by (auto simp add: list_all_iff dest: in_set_dropD)


lemma pathInv_advance:
  assumes inv: "pathInv m s"
    and node: "nodePosition n = position (bot s)"
    and target: "openCell m (vplus_assign (position (bot s)) (directionToVector d))"
  shows "pathInv m (advance s d n)"
proof -
  let ?p = "position (bot s)"
  let ?q = "vplus_assign ?p (directionToVector d)"
  have "linked (?q # ?p # ?p # map nodePosition (visitedLocations s))"
    using inv adjacent_step [of ?p d]
    by (cases "visitedLocations s") (auto simp add: pathInv_def adjacent_def)
  then have "linked (?q # ?p # map nodePosition (visitedLocations s))"
    by simp
  with inv node target show ?thesis
    by (simp add: pathInv_def advance_def markWent_position)
qed

lemma pathInv_backtrack:
  assumes inv: "pathInv m s"
    and bt: "backtrack (bot s) (visitedLocations s) = Inr (True, b, st)"
  shows "pathInv m (s\<lparr>bot := b, visitedLocations := st\<rparr>)"
proof -
  from backtrack_found [OF bt] obtain k top where
    k: "k < length (visitedLocations s)" and st: "st = top # drop (Suc k) (visitedLocations s)"
    and top: "nodePosition top = nodePosition (visitedLocations s ! k)"
    and b: "position b = nodePosition top"
    by blast
  have "map nodePosition st = map nodePosition (drop k (visitedLocations s))"
    using k st top by (simp add: Cons_nth_drop_Suc [symmetric])
  then have eq: "map nodePosition st = drop k (map nodePosition (visitedLocations s))"
    by (simp add: drop_map)
  have all: "list_all (openCell m) (map nodePosition st)"
    using inv unfolding eq pathInv_def by (simp add: list_all_drop)
  have lk: "linked (map nodePosition st)"
    using inv unfolding eq pathInv_def by (auto intro: linked_drop dest: linked_tail)
  have hd: "map nodePosition st = position b # map nodePosition (tl st)"
    using st b by simp
  have "openCell m (position b)"
    using all unfolding hd by simp
  moreover have "linked (position b # map nodePosition st)"
    using lk unfolding hd by simp
  ultimately show ?thesis
    using all by (simp add: pathInv_def)
qed

lemma tick_Running_cases:
  assumes "tick m s = Running s'"
  obtains (straight) n where "localScan m (position (bot s)) = Some n"
      and "openCell m (vplus (position (bot s)) (directionToVector (direction (bot s))))"
      and "s' = advance s (direction (bot s)) n"
    | (turn) n n' d where "localScan m (position (bot s)) = Some n"
      and "branch (direction (bot s)) n = (n', Some d)" and "s' = advance s d n'"
    | (retreat) b st where "backtrack (bot s) (visitedLocations s) = Inr (True, b, st)"
      and "s' = s\<lparr>bot := b, visitedLocations := st\<rparr>"
  using assms
  by (auto simp add: tick_def Let_def openCell_def
      split: if_splits option.splits bool.splits prod.splits sum.splits)

lemma tick_preserves:
  assumes ws: "wellSized m" and inv: "pathInv m s" and t: "tick m s = Running s'"
  shows "pathInv m s'"
  using t
proof (cases rule: tick_Running_cases)
  case (straight n)
  let ?p = "position (bot s)"
  have p: "openCell m ?p"
    using inv by (simp add: pathInv_def)
  have "vplus ?p (directionToVector (direction (bot s)))
      = vplus_assign ?p (directionToVector (direction (bot s)))"
    using openCell_small [OF ws p] by (rule vplus_direction)
  with straight(2) have "openCell m (vplus_assign ?p (directionToVector (direction (bot s))))"
    by simp
  with inv localScan_Some(1) [OF straight(1)] straight(3) show ?thesis
    by (simp add: pathInv_advance)
next
  case (turn n n' d)
  from branch_Some [OF turn(2)] localScan_Some(1) [OF turn(1)]
  have "isOpen n d" and "nodePosition n' = position (bot s)"
    by simp_all
  with inv turn(1,3) show ?thesis
    by (simp add: pathInv_advance open_neighbour)
next
  case (retreat b st)
  with inv show ?thesis
    by (simp add: pathInv_backtrack)
qed

lemma tick_solved:
  assumes "pathInv m s" and "tick m s = Solved path"
  shows "list_all (openCell m) path \<and> linked path"
proof -
  from assms(2) have "path = map nodePosition (visitedLocations s)"
    by (auto simp add: tick_def Let_def
        split: if_splits option.splits bool.splits prod.splits sum.splits)
  with assms(1) show ?thesis
    by (auto simp add: pathInv_def dest: linked_tail)
qed

lemma run_solved:
  "wellSized m \<Longrightarrow> pathInv m s \<Longrightarrow> run n m s = Solved path \<Longrightarrow>
     list_all (openCell m) path \<and> linked path"
proof (induction n arbitrary: s)
  case 0
  then show ?case by simp
next
  case (Suc n)
  show ?case
  proof (cases "tick m s")
    case (Running s')
    with Suc.prems have "run n m s' = Solved path" by simp
    moreover have "pathInv m s'"
      using Suc.prems(1,2) Running by (rule tick_preserves)
    ultimately show ?thesis using Suc.IH Suc.prems(1) by blast
  next
    case (Solved q)
    with Suc.prems have "tick m s = Solved path" by simp
    with Suc.prems(2) show ?thesis by (rule tick_solved)
  next
    case Stuck
    with Suc.prems show ?thesis by simp
  next
    case (Undefined f)
    with Suc.prems show ?thesis by simp
  qed
qed


subsection \<open>The entrance is an open cell\<close>

lemma of_nat_below:
  fixes w :: size_t
  assumes "c < unat w"
  shows "unat (of_nat c :: size_t) = c" and "(of_nat c :: size_t) < w"
proof -
  have "unat w < 2 ^ LENGTH(64)" by (rule unsigned_less)
  then have "unat w < 2 ^ 64" by simp
  with assms have "c < 2 ^ 64" by simp
  then show u: "unat (of_nat c :: size_t) = c"
    by (simp add: unat_of_nat)
  show "(of_nat c :: size_t) < w"
    using assms u by (simp add: word_less_nat_alt)
qed

lemma scanColumns_open:
  assumes ws: "wellSized m" and r: "r < unat (sRowCount m)"
  shows "\<forall>c\<in>set cs. c < unat (sColumnCount m) \<Longrightarrow> scanColumns m r cs = Some ex \<Longrightarrow>
    openCell m (exitPosition ex)"
proof (induction cs)
  case Nil
  then show ?case by simp
next
  case (Cons c cs)
  let ?cc = "sColumnCount m"
  have c: "c < unat ?cc" using Cons.prems(1) by simp
  have cc: "?cc < 2 ^ 31" and rc: "sRowCount m < 2 ^ 31" using ws by (simp_all add: wellSized_def)
  have nz: "?cc \<noteq> 0" using c by (auto simp add: unat_eq_0 [symmetric])
  have row: "through_int (of_nat r) = (of_nat r :: size_t)"
    using of_nat_below(2) [OF r] rc by (intro through_int_small) unat_arith
  have rowlt: "(of_nat r :: size_t) < sRowCount m" and rowu: "unat (of_nat r :: size_t) = r"
    using of_nat_below [OF r] by simp_all
  consider (here) "\<not> wall m r c"
    | (first) "wall m r c" and "\<not> wall m r 0"
    | (last) "wall m r c" and "wall m r 0" and "\<not> wall m r (unat (?cc - 1))"
    | (on) "wall m r c" and "wall m r 0" and "wall m r (unat (?cc - 1))"
    by blast
  then show ?case
  proof cases
    case here
    have "through_int (of_nat c) = (of_nat c :: size_t)"
      using of_nat_below(2) [OF c] cc by (intro through_int_small) unat_arith
    with here Cons.prems(2) row rowlt rowu of_nat_below [OF c] show ?thesis
      by (auto simp add: openCell_def rd_def mkVector2D_def wall_def)
  next
    case first
    have "0 < ?cc" using nz by (simp add: word_neq_0_conv)
    with first Cons.prems(2) row rowlt rowu show ?thesis
      by (auto simp add: openCell_def rd_def mkVector2D_def wall_def through_int_0)
  next
    case last
    have "through_int (?cc - 1) = ?cc - 1" using cc by (rule through_int_pred)
    moreover have "?cc - 1 < ?cc" using nz by unat_arith
    ultimately show ?thesis
      using last Cons.prems(2) row rowlt rowu
      by (auto simp add: openCell_def rd_def mkVector2D_def wall_def)
  next
    case on
    with Cons show ?thesis by simp
  qed
qed

lemma scanRows_open:
  assumes ws: "wellSized m"
  shows "\<forall>r\<in>set rs. r < unat (sRowCount m) \<Longrightarrow> ex \<in> set (scanRows m rs) \<Longrightarrow>
    openCell m (exitPosition ex)"
proof (induction rs)
  case Nil
  then show ?case by simp
next
  case (Cons r rs)
  have r: "r < unat (sRowCount m)" using Cons.prems(1) by simp
  have cols: "\<forall>c\<in>set [0..<unat (sColumnCount m)]. c < unat (sColumnCount m)" by simp
  from Cons.prems(2) consider
      (this) "scanColumns m r [0..<unat (sColumnCount m)] = Some ex"
    | (later) "ex \<in> set (scanRows m rs)"
    by (auto split: if_splits option.splits)
  then show ?case
  proof cases
    case this
    with ws r cols show ?thesis by (rule scanColumns_open)
  next
    case later
    with Cons show ?thesis by simp
  qed
qed

lemma startup_pathInv:
  assumes ws: "wellSized m" and st: "startup m userExits = Inr s"
  shows "pathInv m s"
proof -
  from st have ne: "findEntryPoints m \<noteq> []"
    and s: "position (bot s) = exitPosition (hd (findEntryPoints m))" "visitedLocations s = []"
    by (auto simp add: startup_def Let_def split: if_splits)
  from ne have "hd (findEntryPoints m) \<in> set (scanRows m [0..<unat (sRowCount m)])"
    by (simp add: findEntryPoints_def)
  moreover have "\<forall>r\<in>set [0..<unat (sRowCount m)]. r < unat (sRowCount m)" by simp
  ultimately have "openCell m (exitPosition (hd (findEntryPoints m)))"
    using scanRows_open [OF ws] by blast
  with s show ?thesis by (simp add: pathInv_def)
qed

subsection \<open>A straight run\<close>

lemma probe_inside:
  "r < sRowCount m \<Longrightarrow> c < sColumnCount m \<Longrightarrow> \<exists>v. probe m r c = Some v"
  by (simp add: probe_def rd_def)

lemma localScan_total:
  assumes "openCell m p"
  shows "\<exists>n. localScan m p = Some n"
proof -
  from openCell_bounds [OF assms] have r: "row p < sRowCount m" and c: "column p < sColumnCount m"
    by simp_all
  have "row p \<noteq> 0 \<Longrightarrow> row p - 1 < sRowCount m"
    using r by unat_arith
  then obtain u where
    u: "(if row p \<noteq> 0 then probe m (row p - 1) (column p) else Some False) = Some u"
    using probe_inside [OF _ c, of "row p - 1"] by (cases "row p = 0") auto
  have "row p \<noteq> sRowCount m - 1 \<Longrightarrow> row p + 1 < sRowCount m"
    using r by unat_arith
  then obtain d where
    d: "(if row p \<noteq> sRowCount m - 1 then probe m (row p + 1) (column p) else Some False) = Some d"
    using probe_inside [OF _ c, of "row p + 1"] by (cases "row p = sRowCount m - 1") auto
  have "column p \<noteq> 0 \<Longrightarrow> column p - 1 < sColumnCount m"
    using c by unat_arith
  then obtain l where
    l: "(if column p \<noteq> 0 then probe m (row p) (column p - 1) else Some False) = Some l"
    using probe_inside [OF r, of "column p - 1"] by (cases "column p = 0") auto
  have "column p \<noteq> sColumnCount m - 1 \<Longrightarrow> column p + 1 < sColumnCount m"
    using c by unat_arith
  then obtain rt where
    rt: "(if column p \<noteq> sColumnCount m - 1 then probe m (row p) (column p + 1) else Some False)
          = Some rt"
    using probe_inside [OF r, of "column p + 1"] by (cases "column p = sColumnCount m - 1") auto
  show ?thesis
    unfolding localScan_def u d l rt by simp
qed

lemma tick_into:
  assumes ws: "wellSized m"
    and here: "openCell m (position (bot s))"
    and inner: "\<not> list_ex (\<lambda>e. e = position (bot s)) (entrances s)"
    and turn: "turnsInto m s d"
    and target: "openCell m (vplus_assign (position (bot s)) (directionToVector d))"
  shows "\<exists>n'. tick m s = Running (advance s d n') \<and> nodePosition n' = position (bot s)
           \<and> \<not> entersBacktracking m s"
proof -
  let ?p = "position (bot s)"
  from localScan_total [OF here] obtain n where n: "localScan m ?p = Some n"
    by blast
  have np: "nodePosition n = ?p"
    using n by (rule localScan_Some(1))
  show ?thesis
  proof (cases "direction (bot s) = d")
    case True
    have "vplus ?p (directionToVector d) = vplus_assign ?p (directionToVector d)"
      using openCell_small [OF ws here] by (rule vplus_direction)
    with target have free: "rd m (row (vplus ?p (directionToVector d)))
        (column (vplus ?p (directionToVector d))) = Some False"
      by (simp add: openCell_def)
    from inner n free True have "tick m s = Running (advance s d n)"
      by (simp add: tick_def Let_def)
    moreover from n free True have "\<not> entersBacktracking m s"
      by (simp add: entersBacktracking_def blockedAt_def Let_def)
    ultimately show ?thesis using np by blast
  next
    case False
    with turn n have blocked: "blockedAt m s n"
      and br: "snd (branch (direction (bot s)) n) = Some d"
      by (simp_all add: turnsInto_def)
    obtain n' where n': "branch (direction (bot s)) n = (n', Some d)"
      using br by (cases "branch (direction (bot s)) n") simp
    from blocked n n' inner have "tick m s = Running (advance s d n')"
      by (simp add: tick_def blockedAt_def Let_def)
    moreover from n br have "\<not> entersBacktracking m s"
      by (simp add: entersBacktracking_def)
    moreover have "nodePosition n' = ?p"
      using branch_Some(2) [OF n'] np by simp
    ultimately show ?thesis by blast
  qed
qed

lemma run_snoc:
  "run (Suc j) m s = (case run j m s of Running s' \<Rightarrow> tick m s' | out \<Rightarrow> out)"
proof (induction j arbitrary: s)
  case 0
  show ?case by (simp split: outcome.splits)
next
  case (Suc j)
  show ?case
  proof (cases "tick m s")
    case (Running s1)
    then have "run (Suc (Suc j)) m s = run (Suc j) m s1" by simp
    also have "\<dots> = (case run j m s1 of Running s' \<Rightarrow> tick m s' | out \<Rightarrow> out)"
      by (rule Suc.IH)
    also have "\<dots> = (case run (Suc j) m s of Running s' \<Rightarrow> tick m s' | out \<Rightarrow> out)"
      using Running by simp
    finally show ?thesis .
  qed simp_all
qed

lemma corridor_run:
  assumes ws: "wellSized m"
    and cells: "\<forall>i<L. openCell m (ahead i (position (bot s)) d)"
    and inner: "\<forall>i<L - 1. \<not> list_ex (\<lambda>e. e = ahead i (position (bot s)) d) (entrances s)"
    and turn: "turnsInto m s d"
  shows "j < L \<Longrightarrow>
     \<exists>sj. run j m s = Running sj \<and> position (bot sj) = ahead j (position (bot s)) d
        \<and> entrances sj = entrances s \<and> turnsInto m sj d
        \<and> map nodePosition (visitedLocations sj) =
            rev (map (\<lambda>i. ahead i (position (bot s)) d) [0..<j])
              @ map nodePosition (visitedLocations s)"
proof (induction j)
  case 0
  with turn show ?case by simp
next
  case (Suc j)
  let ?p = "position (bot s)"
  from Suc have "j < L" by simp
  with Suc.IH obtain sj where run: "run j m s = Running sj"
    and pos: "position (bot sj) = ahead j ?p d"
    and en: "entrances sj = entrances s"
    and tn: "turnsInto m sj d"
    and stack: "map nodePosition (visitedLocations sj) =
        rev (map (\<lambda>i. ahead i ?p d) [0..<j]) @ map nodePosition (visitedLocations s)"
    by blast
  have here: "openCell m (position (bot sj))"
    using cells \<open>j < L\<close> pos by simp
  have "j < L - 1" using Suc.prems by simp
  with inner have notexit: "\<not> list_ex (\<lambda>e. e = position (bot sj)) (entrances sj)"
    by (simp add: pos en)
  have target: "openCell m (vplus_assign (position (bot sj)) (directionToVector d))"
    using cells Suc.prems pos by (metis ahead.simps(2))
  from tick_into [OF ws here notexit tn target] obtain n' where
    t: "tick m sj = Running (advance sj d n')" and n': "nodePosition n' = position (bot sj)"
    by blast
  have "run (Suc j) m s = Running (advance sj d n')"
    by (simp only: run_snoc run outcome.case t)
  moreover have "position (bot (advance sj d n')) = ahead (Suc j) ?p d"
    by (simp add: advance_def pos)
  moreover have "entrances (advance sj d n') = entrances s"
    by (simp add: advance_def en)
  moreover have "turnsInto m (advance sj d n') d"
    by (simp add: advance_def turnsInto_def)
  moreover have "map nodePosition (visitedLocations (advance sj d n')) =
      rev (map (\<lambda>i. ahead i ?p d) [0..<Suc j]) @ map nodePosition (visitedLocations s)"
    by (simp add: advance_def markWent_position n' pos stack)
  ultimately show ?case by blast
qed

subsection \<open>The round through the ring\<close>

lemma tick_above_stack:
  assumes "tick m (s\<lparr>visitedLocations := []\<rparr>) = Running s0"
  shows "tick m s = Running (s0\<lparr>visitedLocations := visitedLocations s0 @ visitedLocations s\<rparr>)"
  using assms
  by (auto simp add: tick_def Let_def advance_def
      split: if_splits option.splits bool.splits prod.splits sum.splits)

lemma lap_closed: "list_all staysOnLap lap"
  by code_simp

lemma tick_onLap:
  assumes "onLap s"
  shows "\<exists>s'. tick ring s = Running s' \<and> onLap s'"
proof -
  from assms have en: "entrances s = [cell 2 4]" and b: "bot s \<in> set lap"
    by (simp_all add: onLap_def)
  from b lap_closed have "staysOnLap (bot s)"
    by (simp add: list_all_iff)
  moreover have "s\<lparr>visitedLocations := []\<rparr>
      = \<lparr>bot = bot s, entrances = [cell 2 4], visitedLocations = []\<rparr>"
    using en by simp
  ultimately obtain s0 where t: "tick ring (s\<lparr>visitedLocations := []\<rparr>) = Running s0"
    and on: "onLap s0"
    by (auto simp add: staysOnLap_def split: outcome.splits)
  from tick_above_stack [OF t] on show ?thesis
    by (simp add: onLap_def)
qed

lemma run_onLap: "onLap s \<Longrightarrow> \<exists>s'. run n ring s = Running s' \<and> onLap s'"
proof (induction n arbitrary: s)
  case 0
  then show ?case by simp
next
  case (Suc n)
  from tick_onLap [OF Suc.prems] obtain s1 where "tick ring s = Running s1" and "onLap s1"
    by blast
  with Suc.IH [of s1] show ?case by simp
qed

lemma run_add: "run (a + b) m s = (case run a m s of Running s' \<Rightarrow> run b m s' | out \<Rightarrow> out)"
  by (induction a arbitrary: s) (simp_all split: outcome.splits)

lemma ring_enters_lap: "stillRunning (solve 0 ring []) \<and> stillRunning (solve 1 ring []) \<and> reachesLap 2"
  by code_simp

section \<open>The claims\<close>

subsection \<open>C1: reads outside the grid\<close>

text \<open>
  C1 says that the engine never reads the grid outside its rows and columns, and that the
  look-ahead cell is only consulted when it lies inside the grid. The four reads of the
  local scan are guarded; the read of the look-ahead cell is not. In \<open>junction\<close> the robot
  turns up at (3, 1), stands on (3, 0) in the top row heading up after four ticks, and
  the fifth tick reads \<open>sMaze\<close> at row \<open>0 - 1\<close>, which lies outside the grid.
\<close>

theorem lookahead_read_outside_grid:
  "(case solve 4 junction [] of
      Inr (Running s) \<Rightarrow> bot s = \<lparr>position = cell 3 0, direction = UP\<rparr>
    | _ \<Rightarrow> False)
   \<and> vplus (cell 3 0) (directionToVector UP) = cell 3 (- 1)
   \<and> rd junction (- 1) 3 = None
   \<and> solve 5 junction [] = Inr (Undefined OutOfBoundsRead)"
  by code_simp

subsection \<open>C2: termination\<close>

text \<open>
  C2 says that on every rectangular grid of r rows and c columns the tick loop reaches
  Solved or Stuck within r * c * 4 ticks. In \<open>ring\<close> (5 rows, 5 columns, an exit that can
  be reached) the robot enters the ring and walks round it for ever: after any number of
  ticks, 100 among them, the loop is still running. Every tick starts from a fresh node,
  so the attempted directions marked on earlier nodes are never consulted while the
  robot advances.
\<close>

theorem ring_never_terminates: "stillRunning (solve n ring [])"
proof -
  consider "n = 0" | "n = 1" | k where "n = 2 + k"
    by (cases n rule: nat.exhaust; cases "n - 1" rule: nat.exhaust) auto
  then show ?thesis
  proof cases
    case 1
    then show ?thesis using ring_enters_lap by simp
  next
    case 2
    then show ?thesis using ring_enters_lap by simp
  next
    case 3
    from ring_enters_lap obtain s0 s2 where s0: "startup ring [] = Inr s0"
      and s2: "run 2 ring s0 = Running s2" and on: "onLap s2"
      by (auto simp add: reachesLap_def solve_def split: sum.splits outcome.splits)
    from run_onLap [OF on, of k] obtain s' where s': "run k ring s2 = Running s'"
      by blast
    have "run (2 + k) ring s0 = Running s'"
      unfolding run_add s2 using s' by simp
    then have "solve n ring [] = Inr (Running s')"
      unfolding solve_def 3 s0 by simp
    then show ?thesis
      by (simp add: stillRunning_def)
  qed
qed

subsection \<open>C3: the scan of the interior rows\<close>

text \<open>
  C3 says that \<open>findEntryPoints\<close> returns the first opening of the interior rows in column
  0, heading right, and the first in the last column, heading left. The \<open>else\<close> branch
  that holds both tests belongs to the \<open>if\<close> inside the column loop of the top and bottom
  rows, so the interior rows are not scanned at all: \<open>sideDoors\<close> has an opening at
  (0, 1) and one at (3, 2), and the scan returns nothing.
\<close>

theorem interior_openings_not_found:
  "\<not> wall sideDoors 1 0 \<and> \<not> wall sideDoors 2 3 \<and> findEntryPoints sideDoors = []"
  by code_simp

subsection \<open>C4: the openings test\<close>

text \<open>
  C4 says that the maze is rejected if and only if the boundary entrances found by the
  scan and the user exits together number fewer than two. The claim as stated fails on
  \<open>innerExits\<close>: no boundary entrance, two user exits, and the maze is rejected.
\<close>

theorem two_user_exits_rejected:
  "\<not> (startup innerExits [cell 1 1, cell 2 1] = Inl InsufficientOpenings
        \<longleftrightarrow> length (findEntryPoints innerExits) + length [cell 1 1, cell 2 1] < 2)"
  by code_simp

text \<open>
  C4 as amended: the maze is rejected, before any tick, if and only if the scan finds no
  boundary entrance, or finds exactly one and there is no user exit.
\<close>

theorem startup_fails_iff:
  "startup m userExits = Inl InsufficientOpenings \<longleftrightarrow>
     findEntryPoints m = [] \<or> (length (findEntryPoints m) = 1 \<and> userExits = [])"
  by (simp add: startup_def Let_def)

theorem startup_fails_iff_witness:
  "startup innerExits [cell 1 1, cell 2 1] = Inl InsufficientOpenings \<longleftrightarrow>
     findEntryPoints innerExits = []
     \<or> (length (findEntryPoints innerExits) = 1 \<and> [cell 1 1, cell 2 1] = [])"
  by (rule startup_fails_iff)

subsection \<open>C5: the top of the stack\<close>

text \<open>
  C5 says that while the robot advances the top node of the stack records the robot's
  current cell, and that during backtracking the top is popped until a usable branch is
  found. The first half fails as stated after the first tick in \<open>corridor\<close>: the robot
  stands on (1, 1) and the only node records (1, 0), the cell it left.
\<close>

theorem top_is_cell_left:
  "(case solve 1 corridor [] of
      Inr (Running s) \<Rightarrow>
        position (bot s) = cell 1 1 \<and> map nodePosition (visitedLocations s) = [cell 1 0]
    | _ \<Rightarrow> False)"
  by code_simp

text \<open>
  C5 as amended: after a tick that leaves the loop running, either the robot has
  advanced, a node recording the cell it left has been pushed, and the robot's cell is
  that cell plus the unit displacement of its heading; or the robot has backtracked:
  the top has been popped, pass after pass, each pass leaving the robot on the cell of
  the node it popped, until the first popped node with a usable direction (open,
  unattempted and not leading to the cell of the node below it); that node has been
  pushed back, and the top records the robot's current cell.
\<close>

theorem tick_top_of_history:
  assumes "tick m s = Running s'"
  shows "(\<exists>n. visitedLocations s' = n # visitedLocations s
            \<and> nodePosition n = position (bot s)
            \<and> position (bot s') =
                vplus_assign (nodePosition n) (directionToVector (direction (bot s'))))
       \<or> (\<exists>k pushed d. Suc k < length (visitedLocations s)
            \<and> (\<forall>j<k. retry (visitedLocations s ! j) (visitedLocations s ! Suc j) = None
                  \<and> passes (Suc j) (bot s) (visitedLocations s) =
                      Inr (False, (bot s)\<lparr>position := nodePosition (visitedLocations s ! j)\<rparr>,
                           drop (Suc j) (visitedLocations s)))
            \<and> retry (visitedLocations s ! k) (visitedLocations s ! Suc k) = Some (pushed, d)
            \<and> passes (Suc k) (bot s) (visitedLocations s) = Inr (True, bot s', visitedLocations s')
            \<and> visitedLocations s' = pushed # drop (Suc k) (visitedLocations s)
            \<and> bot s' = \<lparr>position = nodePosition (visitedLocations s ! k), direction = d\<rparr>
            \<and> nodePosition (hd (visitedLocations s')) = position (bot s'))"
  using assms
proof (cases rule: tick_Running_cases)
  case (straight n)
  then show ?thesis
    using localScan_Some(1) [of m "position (bot s)" n]
    by (simp add: advance_def markWent_position)
next
  case (turn n n' d)
  then show ?thesis
    using localScan_Some(1) [of m "position (bot s)" n] branch_Some(2) [of "direction (bot s)" n n' d]
    by (simp add: advance_def markWent_position)
next
  case (retreat b st)
  let ?st = "visitedLocations s"
  from backtrack_found_first [OF retreat(1)] obtain k pushed d where
    k: "Suc k < length ?st"
    and none: "\<forall>j<k. retry (?st ! j) (?st ! Suc j) = None"
    and some: "retry (?st ! k) (?st ! Suc k) = Some (pushed, d)"
    and st: "st = pushed # drop (Suc k) ?st"
    and b: "b = \<lparr>position = nodePosition (?st ! k), direction = d\<rparr>"
    by blast
  have early: "\<forall>j<k. retry (?st ! j) (?st ! Suc j) = None
      \<and> passes (Suc j) (bot s) ?st =
          Inr (False, (bot s)\<lparr>position := nodePosition (?st ! j)\<rparr>, drop (Suc j) ?st)"
  proof (intro allI impI conjI)
    fix j assume j: "j < k"
    with none show "retry (?st ! j) (?st ! Suc j) = None" by blast
    from j k have "Suc j < length ?st" by simp
    moreover from j none have "\<forall>i\<le>j. retry (?st ! i) (?st ! Suc i) = None" by simp
    ultimately show "passes (Suc j) (bot s) ?st =
        Inr (False, (bot s)\<lparr>position := nodePosition (?st ! j)\<rparr>, drop (Suc j) ?st)"
      by (rule passes_none)
  qed
  have last: "passes (Suc k) (bot s) ?st = Inr (True, b, st)"
    unfolding b st using k none some by (rule passes_found)
  have "nodePosition pushed = nodePosition (?st ! k)"
    using some by (rule retry_position)
  with k early some last st b retreat(2) show ?thesis
    by auto
qed

theorem tick_top_of_history_witness:
  "tick deepDeadEnd deepBlocked = Running deepResumed
   \<and> length (visitedLocations deepResumed) < length (visitedLocations deepBlocked)
   \<and> passes 1 (bot deepBlocked) (visitedLocations deepBlocked) =
       Inr (False, \<lparr>position = cell 1 2, direction = DOWN\<rparr>, [deepJunction, deepEntrance])
   \<and> (\<exists>k pushed d. Suc k < length (visitedLocations deepBlocked)
        \<and> (\<forall>j<k. retry (visitedLocations deepBlocked ! j) (visitedLocations deepBlocked ! Suc j) = None
              \<and> passes (Suc j) (bot deepBlocked) (visitedLocations deepBlocked) =
                  Inr (False, (bot deepBlocked)\<lparr>position := nodePosition (visitedLocations deepBlocked ! j)\<rparr>,
                       drop (Suc j) (visitedLocations deepBlocked)))
        \<and> retry (visitedLocations deepBlocked ! k) (visitedLocations deepBlocked ! Suc k) = Some (pushed, d)
        \<and> passes (Suc k) (bot deepBlocked) (visitedLocations deepBlocked) =
            Inr (True, bot deepResumed, visitedLocations deepResumed)
        \<and> visitedLocations deepResumed = pushed # drop (Suc k) (visitedLocations deepBlocked)
        \<and> bot deepResumed = \<lparr>position = nodePosition (visitedLocations deepBlocked ! k), direction = d\<rparr>
        \<and> nodePosition (hd (visitedLocations deepResumed)) = position (bot deepResumed))"
proof -
  have t: "tick deepDeadEnd deepBlocked = Running deepResumed"
    by code_simp
  have shorter: "length (visitedLocations deepResumed) < length (visitedLocations deepBlocked)"
    by (simp add: deepResumed_def deepBlocked_def)
  have one: "passes 1 (bot deepBlocked) (visitedLocations deepBlocked) =
       Inr (False, \<lparr>position = cell 1 2, direction = DOWN\<rparr>, [deepJunction, deepEntrance])"
    by code_simp
  from shorter have "\<not> (\<exists>n. visitedLocations deepResumed = n # visitedLocations deepBlocked
            \<and> nodePosition n = position (bot deepBlocked)
            \<and> position (bot deepResumed) =
                vplus_assign (nodePosition n) (directionToVector (direction (bot deepResumed))))"
    by auto
  with tick_top_of_history [OF t] t shorter one show ?thesis
    by blast
qed

subsection \<open>C6: the solution path\<close>

text \<open>
  C6 says that on Solved every cell of the emitted path is open and consecutive cells
  differ by one unit in one axis. The claim as stated fails on \<open>deadEndFirst\<close>: the node of
  the junction (1, 1) is pushed back when the robot backtracks to it and pushed again
  when the robot leaves it, so the path holds (1, 1) twice in a row.
\<close>

theorem solved_path_repeats_cell:
  "solve 8 deadEndFirst [] = Inr (Solved [cell 3 2, cell 3 1, cell 2 1, cell 1 1, cell 1 1, cell 1 0]) \<and> \<not> unitSteps [cell 3 2, cell 3 1, cell 2 1, cell 1 1, cell 1 1, cell 1 0]"
  by code_simp

text \<open>
  C6 as amended: for a maze with fewer than \<open>2 ^ 31\<close> rows and columns, on Solved every
  cell of the emitted path is an open cell of the grid, and consecutive cells of the path
  are the same cell or differ by one unit in one axis.
\<close>

theorem solved_path_open_linked:
  assumes "wellSized m" and "solve n m userExits = Inr (Solved path)"
  shows "list_all (openCell m) path \<and> linked path"
proof -
  from assms(2) obtain s where s: "startup m userExits = Inr s" and r: "run n m s = Solved path"
    by (auto simp add: solve_def split: sum.splits)
  from assms(1) s have "pathInv m s" by (rule startup_pathInv)
  with assms(1) show ?thesis using r by (rule run_solved)
qed

theorem solved_path_open_linked_witness:
  "wellSized deadEndFirst
   \<and> solve 8 deadEndFirst [] = Inr (Solved [cell 3 2, cell 3 1, cell 2 1, cell 1 1, cell 1 1, cell 1 0])
   \<and> list_all (openCell deadEndFirst) [cell 3 2, cell 3 1, cell 2 1, cell 1 1, cell 1 1, cell 1 0]
   \<and> linked [cell 3 2, cell 3 1, cell 2 1, cell 1 1, cell 1 1, cell 1 0]"
proof -
  have w: "wellSized deadEndFirst"
    by code_simp
  have r: "solve 8 deadEndFirst [] = Inr (Solved [cell 3 2, cell 3 1, cell 2 1, cell 1 1, cell 1 1, cell 1 0])"
    by code_simp
  from solved_path_open_linked [OF w r] w r show ?thesis
    by simp
qed

subsection \<open>C7: the storage of a row\<close>

text \<open>
  C7 says that after \<open>load\<close> every row holds \<open>columnCount\<close> flags, so that every access
  inside the dimensions lands in the row's storage. \<open>load\<close> allocates one flag for each
  row. For the three rows \<open>X X\<close> of the corridor the table it allocates is not
  rectangular, the write of the second character, row 0 and column 1, is outside the
  storage of row 0, and \<open>load\<close> does not complete.
\<close>

theorem load_overruns_row_storage:
  "allocate 3 = [[False], [False], [False]]
   \<and> \<not> rectangular \<lparr>sMaze = allocate 3, sRowCount = 3, sColumnCount = 3\<rparr>
   \<and> store (allocate 3) 0 1 False = None
   \<and> load 3 3 ''X XX XX X'' = None"
  by code_simp

subsection \<open>C8: the tie-break orders\<close>




subsection \<open>C9: the straight corridor\<close>

text \<open>
  C9 says that a straight corridor from the chosen entrance to a second opening on the
  boundary is solved in corridor length minus one ticks, without backtracking. The claim
  as stated fails on \<open>corridor\<close>, of length 3: after two ticks the robot stands on the
  exit and the loop is still running; the goal check opens the next pass of the loop,
  and it is the third tick that reports Solved.
\<close>

theorem corridor_solved_on_third_tick:
  "startup corridor [] = Inr corridorStart
   \<and> corridorFrom corridor corridorStart DOWN 3
   \<and> stillRunning (solve (3 - 1) corridor [])
   \<and> solve 3 corridor [] = Inr (Solved [cell 1 1, cell 1 0])"
  by code_simp

text \<open>
  C9 as amended: on a maze with fewer than \<open>2 ^ 31\<close> rows and columns, if a straight
  corridor of L open cells leads from the chosen entrance to a candidate exit, none of
  its other cells being a candidate exit, and the robot heads into it or turns into it
  on its first tick, then each of the first L - 1 ticks advances the robot one cell
  without entering the backtracking loop, after them the robot stands on the exit, and
  tick L reports Solved with the L - 1 cells left behind as the path.
\<close>

theorem corridor_solved_on_tick_L:
  assumes ws: "wellSized m" and st: "startup m userExits = Inr s" and cor: "corridorFrom m s d L"
  shows "(\<forall>j<L. \<exists>sj. solve j m userExits = Inr (Running sj)
            \<and> position (bot sj) = ahead j (position (bot s)) d
            \<and> length (visitedLocations sj) = j
            \<and> \<not> entersBacktracking m sj)
       \<and> solve L m userExits =
           Inr (Solved (rev (map (\<lambda>j. ahead j (position (bot s)) d) [0..<L - 1])))"
proof -
  let ?p = "position (bot s)"
  from cor have L: "0 < L" and turn: "turnsInto m s d"
    and cells: "\<forall>i<L. openCell m (ahead i ?p d)"
    and inner: "\<forall>i<L - 1. \<not> list_ex (\<lambda>e. e = ahead i ?p d) (entrances s)"
    and exit: "list_ex (\<lambda>e. e = ahead (L - 1) ?p d) (entrances s)"
    by (simp_all add: corridorFrom_def list_all_iff)
  from st have empty: "visitedLocations s = []"
    by (auto simp add: startup_def Let_def split: if_splits)
  have solve: "solve j m userExits = Inr (run j m s)" for j
    by (simp add: solve_def st)
  have steps: "\<exists>sj. run j m s = Running sj \<and> position (bot sj) = ahead j ?p d
        \<and> entrances sj = entrances s \<and> turnsInto m sj d
        \<and> map nodePosition (visitedLocations sj) = rev (map (\<lambda>i. ahead i ?p d) [0..<j])"
    if "j < L" for j
    using corridor_run [OF ws cells inner turn that] by (simp add: empty)
  have first: "\<forall>j<L. \<exists>sj. solve j m userExits = Inr (Running sj)
            \<and> position (bot sj) = ahead j ?p d
            \<and> length (visitedLocations sj) = j
            \<and> \<not> entersBacktracking m sj"
  proof (intro allI impI)
    fix j assume j: "j < L"
    from steps [OF j] obtain sj where run: "run j m s = Running sj"
      and pos: "position (bot sj) = ahead j ?p d"
      and en: "entrances sj = entrances s" and tn: "turnsInto m sj d"
      and stack: "map nodePosition (visitedLocations sj) = rev (map (\<lambda>i. ahead i ?p d) [0..<j])"
      by blast
    have len: "length (visitedLocations sj) = j"
      using arg_cong [OF stack, of length] by simp
    have "\<not> entersBacktracking m sj"
    proof (cases "j < L - 1")
      case True
      have here: "openCell m (position (bot sj))"
        using cells j pos by simp
      from True inner have notexit: "\<not> list_ex (\<lambda>e. e = position (bot sj)) (entrances sj)"
        by (simp add: pos en)
      from True have "Suc j < L" by simp
      with cells have target: "openCell m (vplus_assign (position (bot sj)) (directionToVector d))"
        using pos by (metis ahead.simps(2))
      from tick_into [OF ws here notexit tn target] show ?thesis by blast
    next
      case False
      with j have "j = L - 1" by simp
      with exit have "list_ex (\<lambda>e. e = position (bot sj)) (entrances sj)"
        by (simp add: pos en)
      then show ?thesis
        by (simp add: entersBacktracking_def blockedAt_def split: option.splits)
    qed
    with run pos len show "\<exists>sj. solve j m userExits = Inr (Running sj)
            \<and> position (bot sj) = ahead j ?p d
            \<and> length (visitedLocations sj) = j
            \<and> \<not> entersBacktracking m sj"
      by (simp add: solve)
  qed
  from L have "L - 1 < L" by simp
  from steps [OF this] obtain sl where run: "run (L - 1) m s = Running sl"
    and pos: "position (bot sl) = ahead (L - 1) ?p d"
    and en: "entrances sl = entrances s"
    and stack: "map nodePosition (visitedLocations sl) = rev (map (\<lambda>i. ahead i ?p d) [0..<L - 1])"
    by blast
  from exit have "list_ex (\<lambda>e. e = position (bot sl)) (entrances sl)"
    by (simp add: pos en)
  then have "tick m sl = Solved (rev (map (\<lambda>i. ahead i ?p d) [0..<L - 1]))"
    by (simp add: tick_def stack)
  moreover have "run (Suc (L - 1)) m s = tick m sl"
    by (simp only: run_snoc run outcome.case)
  moreover have "Suc (L - 1) = L"
    using L by simp
  ultimately have "solve L m userExits = Inr (Solved (rev (map (\<lambda>i. ahead i ?p d) [0..<L - 1])))"
    by (simp only: solve)
  with first show ?thesis by blast
qed

theorem corridor_solved_on_tick_L_witness:
  "wellSized edgeCorridor
   \<and> startup edgeCorridor [] = Inr edgeStart
   \<and> corridorFrom edgeCorridor edgeStart DOWN 3
   \<and> direction (bot edgeStart) = LEFT
   \<and> (\<exists>sj. solve 2 edgeCorridor [] = Inr (Running sj)
        \<and> position (bot sj) = ahead 2 (position (bot edgeStart)) DOWN
        \<and> length (visitedLocations sj) = 2
        \<and> \<not> entersBacktracking edgeCorridor sj)
   \<and> solve 3 edgeCorridor [] =
        Inr (Solved (rev (map (\<lambda>j. ahead j (position (bot edgeStart)) DOWN) [0..<3 - 1])))"
proof -
  have w: "wellSized edgeCorridor"
    by code_simp
  have st: "startup edgeCorridor [] = Inr edgeStart"
    by code_simp
  have c: "corridorFrom edgeCorridor edgeStart DOWN 3"
    by code_simp
  have h: "direction (bot edgeStart) = LEFT"
    by (simp add: edgeStart_def)
  from corridor_solved_on_tick_L [OF w st c] w st c h show ?thesis
    by (auto simp del: upt_Suc)
qed

subsection \<open>C10: the top of an empty stack\<close>

text \<open>
  C10 says that the stack is never empty after the pop of a backtrack step, so that the
  new top exists. In \<open>blindAlley\<close> the robot steps from the entrance into a dead end;
  the stack holds one node when the second tick backtracks; the pop empties the stack,
  and the code takes \<open>top()\<close> of the empty stack.
\<close>

theorem backtrack_takes_top_of_empty_stack:
  "(case solve 1 blindAlley [] of
      Inr (Running s) \<Rightarrow> length (visitedLocations s) = 1
    | _ \<Rightarrow> False)
   \<and> solve 2 blindAlley [] = Inr (Undefined EmptyStackTop)"
  by code_simp

end
